theory Spec2Isabelle
  imports Main "HOL-Library.Word" "HOL-Library.Stream" "HOL-Library.Multiset" "HOL-Library.Monad_Syntax"
begin

unbundle bit_operations_syntax

section \<open>Machine integers, panics and the byte order\<close>

text \<open>
  Go's \<^verbatim>\<open>uint64\<close>, \<^verbatim>\<open>uint32\<close>, \<^verbatim>\<open>uint16\<close> and \<^verbatim>\<open>byte\<close> are words of that width; an
  \<^verbatim>\<open>int64\<close> seed is only stored and handed on, so it is a 64-bit word too. A conversion
  \<^verbatim>\<open>uint16(len(x))\<close> is \<open>of_nat (length x)\<close> at that width and truncates as Go does.

  A run-time panic (index out of range, slice bounds out of range, integer divide by
  zero) is the value \<open>None\<close> of an option result; a function that returns a pointer and an
  \<^verbatim>\<open>error\<close> returns a pair of options, \<open>None\<close> standing for \<^verbatim>\<open>nil\<close>.
\<close>

type_synonym u64 = "64 word"
type_synonym u32 = "32 word"
type_synonym u16 = "16 word"
type_synonym byte = "8 word"
type_synonym i64 = "64 word"

datatype error =
    DuplicateKey u64
  | HashSearchFailed nat nat "u64 list"
  | IOFailure nat

definition umod :: "'a::len word \<Rightarrow> 'a word \<Rightarrow> 'a word option" where
  "umod x y = (if y = 0 then None else Some (x mod y))"

definition index :: "'a list \<Rightarrow> nat \<Rightarrow> 'a option" where
  "index xs i = (if i < length xs then Some (xs ! i) else None)"

definition store :: "'a list \<Rightarrow> nat \<Rightarrow> 'a \<Rightarrow> 'a list option" where
  "store xs i v = (if i < length xs then Some (xs[i := v]) else None)"

text \<open>
  \<^verbatim>\<open>encoding/binary\<close>'s \<^verbatim>\<open>LittleEndian\<close> of the Go library: \<^verbatim>\<open>PutUintN\<close> stores
  \<^verbatim>\<open>byte(v >> (8*i))\<close> at position \<open>i\<close>, \<^verbatim>\<open>UintN\<close> ors \<^verbatim>\<open>uintN(b[i]) << (8*i)\<close> together.
\<close>

definition PutUint16 :: "u16 \<Rightarrow> byte list" where
  "PutUint16 v = [ucast v, ucast (drop_bit 8 v)]"

definition PutUint32 :: "u32 \<Rightarrow> byte list" where
  "PutUint32 v = [ucast v, ucast (drop_bit 8 v), ucast (drop_bit 16 v), ucast (drop_bit 24 v)]"

definition PutUint64 :: "u64 \<Rightarrow> byte list" where
  "PutUint64 v = [ucast v, ucast (drop_bit 8 v), ucast (drop_bit 16 v), ucast (drop_bit 24 v),
     ucast (drop_bit 32 v), ucast (drop_bit 40 v), ucast (drop_bit 48 v), ucast (drop_bit 56 v)]"

definition Uint16 :: "byte list \<Rightarrow> u16" where
  "Uint16 b = ucast (b ! 0) OR push_bit 8 (ucast (b ! 1))"

definition Uint32 :: "byte list \<Rightarrow> u32" where
  "Uint32 b = ucast (b ! 0) OR push_bit 8 (ucast (b ! 1)) OR push_bit 16 (ucast (b ! 2))
     OR push_bit 24 (ucast (b ! 3))"

definition Uint64 :: "byte list \<Rightarrow> u64" where
  "Uint64 b = ucast (b ! 0) OR push_bit 8 (ucast (b ! 1)) OR push_bit 16 (ucast (b ! 2))
     OR push_bit 24 (ucast (b ! 3)) OR push_bit 32 (ucast (b ! 4)) OR push_bit 40 (ucast (b ! 5))
     OR push_bit 48 (ucast (b ! 6)) OR push_bit 56 (ucast (b ! 7))"

section \<open>chd.go: the lookup structure\<close>

text \<open>
  The field names of the Go structs are prefixed with the struct they belong to
  (\<open>chd_\<close>, \<open>h_\<close>, \<open>bucket_\<close>, \<open>b_\<close>, \<open>t_\<close>, \<open>sr_\<close>), since several structs share the
  names \<^verbatim>\<open>r\<close>, \<^verbatim>\<open>keys\<close> and \<^verbatim>\<open>values\<close>.
\<close>

record CHD =
  chd_r :: "u64 list"
  chd_indices :: "u16 list"
  chd_keys :: "u64 list"
  chd_values :: "u64 list"

definition hasher :: "u64 \<Rightarrow> u64" where
  "hasher data =
     foldl (\<lambda>hash c. (hash XOR ucast c) * 1099511628211) 14695981039346656037 (PutUint64 data)"

subsection \<open>The slice reader (the portable build of the reader) and Mmap\<close>

text \<open>
  \<open>sr_b\<close> is the byte region up to the capacity of the slice handed to \<^verbatim>\<open>Mmap\<close>: the
  slice expression \<^verbatim>\<open>b.b[start:b.pos]\<close> is checked against the capacity, and \<^verbatim>\<open>Mmap\<close>
  never asks for the length.
\<close>

record sliceReader =
  sr_b :: "byte list"
  sr_pos :: u64

definition read :: "sliceReader \<Rightarrow> u64 \<Rightarrow> (byte list \<times> sliceReader) option" where
  "read b sz =
     (let start = sr_pos b; pos = start + sz
      in if start \<le> pos \<and> unat pos \<le> length (sr_b b)
         then Some (take (unat pos - unat start) (drop (unat start) (sr_b b)), b\<lparr>sr_pos := pos\<rparr>)
         else None)"

definition ReadUint64Array :: "sliceReader \<Rightarrow> u64 \<Rightarrow> (u64 list \<times> sliceReader) option" where
  "ReadUint64Array b n =
     (case read b (n * 8) of
        None \<Rightarrow> None
      | Some (buf, b') \<Rightarrow>
          Some (map (\<lambda>j. if 8 * j < length buf then Uint64 (take 8 (drop (8 * j) buf)) else 0)
                  [0..<unat n], b'))"

definition ReadUint16Array :: "sliceReader \<Rightarrow> u64 \<Rightarrow> (u16 list \<times> sliceReader) option" where
  "ReadUint16Array b n =
     (case read b (n * 2) of
        None \<Rightarrow> None
      | Some (buf, b') \<Rightarrow>
          Some (map (\<lambda>j. if 2 * j < length buf then Uint16 (take 2 (drop (2 * j) buf)) else 0)
                  [0..<unat n], b'))"

definition ReadInt :: "sliceReader \<Rightarrow> (u64 \<times> sliceReader) option" where
  "ReadInt b = (case read b 4 of None \<Rightarrow> None | Some (buf, b') \<Rightarrow> Some (ucast (Uint32 buf), b'))"

definition Mmap :: "byte list \<Rightarrow> (CHD option \<times> error option) option" where
  "Mmap b = do {
     (rl, bi1) \<leftarrow> ReadInt \<lparr>sr_b = b, sr_pos = 0\<rparr>;
     (rs, bi2) \<leftarrow> ReadUint64Array bi1 rl;
     (il, bi3) \<leftarrow> ReadInt bi2;
     (ixs, bi4) \<leftarrow> ReadUint16Array bi3 il;
     (el, bi5) \<leftarrow> ReadInt bi4;
     (ks, bi6) \<leftarrow> ReadUint64Array bi5 el;
     (vs, bi7) \<leftarrow> ReadUint64Array bi6 el;
     Some (Some \<lparr>chd_r = rs, chd_indices = ixs, chd_keys = ks, chd_values = vs\<rparr>, None)
   }"

text \<open>\<open>Read\<close> takes the outcome of \<^verbatim>\<open>ioutil.ReadAll(r)\<close>: the bytes, or the reader's error.\<close>

definition Read :: "error + byte list \<Rightarrow> (CHD option \<times> error option) option" where
  "Read ra = (case ra of Inl err \<Rightarrow> Some (None, Some err) | Inr b \<Rightarrow> Mmap b)"

subsection \<open>Get\<close>

definition Get :: "CHD \<Rightarrow> u64 \<Rightarrow> u64 option" where
  "Get c key = do {
     r0 \<leftarrow> index (chd_r c) 0;
     let h = hasher key XOR r0;
     i \<leftarrow> umod h (of_nat (length (chd_indices c)));
     ri \<leftarrow> index (chd_indices c) (unat i);
     if ri \<ge> of_nat (length (chd_r c)) then Some (- 1)
     else do {
       rv \<leftarrow> index (chd_r c) (unat ri);
       ti \<leftarrow> umod (h XOR rv) (of_nat (length (chd_keys c)));
       k \<leftarrow> index (chd_keys c) (unat ti);
       if k \<noteq> key then Some (- 1) else index (chd_values c) (unat ti)
     }
   }"

definition Len :: "CHD \<Rightarrow> nat" where
  "Len c = length (chd_keys c)"

subsection \<open>Write\<close>

text \<open>
  A value handed to \<^verbatim>\<open>binary.Write\<close> is one of the three kinds \<open>Write\<close> uses;
  \<^verbatim>\<open>binary.Write(w, binary.LittleEndian, d)\<close> encodes it and makes one call of the writer.
  The writer is a state \<open>w\<close> with its \<^verbatim>\<open>Write\<close> method \<open>wr\<close>; \<open>buffer_Write\<close> is
  \<^verbatim>\<open>bytes.Buffer\<close>, which appends and never fails.
\<close>

datatype datum = U32 u32 | U64s "u64 list" | U16s "u16 list"

fun encode :: "datum \<Rightarrow> byte list" where
  "encode (U32 v) = PutUint32 v"
| "encode (U64s vs) = concat (map PutUint64 vs)"
| "encode (U16s vs) = concat (map PutUint16 vs)"

fun write_data :: "('w \<Rightarrow> byte list \<Rightarrow> 'w \<times> error option) \<Rightarrow> 'w \<Rightarrow> datum list \<Rightarrow> 'w \<times> error option" where
  "write_data wr w [] = (w, None)"
| "write_data wr w (d # nd) =
     (case wr w (encode d) of
        (w', Some err) \<Rightarrow> (w', Some err)
      | (w', None) \<Rightarrow> write_data wr w' nd)"

definition Write :: "('w \<Rightarrow> byte list \<Rightarrow> 'w \<times> error option) \<Rightarrow> 'w \<Rightarrow> CHD \<Rightarrow> 'w \<times> error option" where
  "Write wr w c =
     write_data wr w
       [U32 (of_nat (length (chd_r c))), U64s (chd_r c),
        U32 (of_nat (length (chd_indices c))), U16s (chd_indices c),
        U32 (of_nat (length (chd_keys c))),
        U64s (chd_keys c),
        U64s (chd_values c)]"

definition buffer_Write :: "byte list \<Rightarrow> byte list \<Rightarrow> byte list \<times> error option" where
  "buffer_Write buf p = (buf @ p, None)"

section \<open>chd\_builder.go: the builder\<close>

record chdHasher =
  h_r :: "u64 list"
  h_size :: u64
  h_buckets :: u64
  h_rand :: "u64 stream"

record bucket =
  bucket_index :: u64
  bucket_keys :: "u64 list"
  bucket_values :: "u64 list"

definition Less :: "bucket \<Rightarrow> bucket \<Rightarrow> bool" where
  "Less bi bj = (length (bucket_keys bi) > length (bucket_keys bj))"

record CHDBuilder =
  b_keys :: "u64 list"
  b_values :: "u64 list"
  b_seed :: i64
  b_seeded :: bool

definition Builder :: CHDBuilder where
  "Builder = \<lparr>b_keys = [], b_values = [], b_seed = 0, b_seeded = False\<rparr>"

definition Seed :: "CHDBuilder \<Rightarrow> i64 \<Rightarrow> CHDBuilder" where
  "Seed b seed = b\<lparr>b_seed := seed, b_seeded := True\<rparr>"

definition Add :: "CHDBuilder \<Rightarrow> u64 \<Rightarrow> u64 \<Rightarrow> CHDBuilder" where
  "Add b key val = b\<lparr>b_keys := b_keys b @ [key], b_values := b_values b @ [val]\<rparr>"

text \<open>
  What the builder takes from the Go library and the system: \<^verbatim>\<open>sort.Sort\<close> on a bucket
  vector, the sequence of values that \<^verbatim>\<open>Uint64()\<close> returns on
  \<^verbatim>\<open>rand.New(rand.NewSource(seed))\<close>, and the reading of \<^verbatim>\<open>time.Now().UnixNano()\<close>.
\<close>

record env =
  sort_Sort :: "bucket list \<Rightarrow> bucket list"
  rand_New :: "i64 \<Rightarrow> u64 stream"
  time_Now :: i64

text \<open>
  The documented contract of \<^verbatim>\<open>sort.Sort\<close>: it permutes the elements (it only swaps) and
  leaves no later element \<open>Less\<close> than an earlier one. It promises no stability.
\<close>

definition sort_contract :: "(bucket list \<Rightarrow> bucket list) \<Rightarrow> bool" where
  "sort_contract srt = (\<forall>bs. mset (srt bs) = mset bs \<and> sorted_wrt (\<lambda>x y. \<not> Less y x) (srt bs))"

subsection \<open>The hasher of the builder\<close>

definition hasher_Add :: "chdHasher \<Rightarrow> u64 \<Rightarrow> chdHasher" where
  "hasher_Add c rv = c\<lparr>h_r := h_r c @ [rv]\<rparr>"

definition hasher_Len :: "chdHasher \<Rightarrow> u16" where
  "hasher_Len c = of_nat (length (h_r c))"

definition Generate :: "chdHasher \<Rightarrow> (u16 \<times> u64) \<times> chdHasher" where
  "Generate c = ((hasher_Len c, shd (h_rand c)), c\<lparr>h_rand := stl (h_rand c)\<rparr>)"

definition newCHDHasher :: "env \<Rightarrow> u64 \<Rightarrow> u64 \<Rightarrow> i64 \<Rightarrow> bool \<Rightarrow> chdHasher" where
  "newCHDHasher E sz buckets seed seeded =
     (let seed' = (if \<not> seeded then time_Now E else seed);
          rs = rand_New E seed'
      in hasher_Add \<lparr>h_r = [], h_size = sz, h_buckets = buckets, h_rand = stl rs\<rparr> (shd rs))"

definition HashIndexFromKey :: "chdHasher \<Rightarrow> u64 \<Rightarrow> u64 option" where
  "HashIndexFromKey h b = do { r0 \<leftarrow> index (h_r h) 0; umod (hasher b XOR r0) (h_buckets h) }"

definition Table :: "chdHasher \<Rightarrow> u64 \<Rightarrow> u64 \<Rightarrow> u64 option" where
  "Table h rv b = do { r0 \<leftarrow> index (h_r h) 0; umod (hasher b XOR r0 XOR rv) (h_size h) }"

subsection \<open>tryHash\<close>

text \<open>The slices and the map that \<open>tryHash\<close> updates in place.\<close>

record tables =
  t_seen :: "u64 set"
  t_keys :: "u64 list"
  t_values :: "u64 list"
  t_indices :: "u16 list"

text \<open>
  The first loop of \<open>tryHash\<close>: \<open>Some None\<close> is its \<^verbatim>\<open>return false\<close>, \<open>Some (Some hashes)\<close>
  the hashes of a bucket that collides with nothing.
\<close>

fun hashes_of :: "chdHasher \<Rightarrow> u64 set \<Rightarrow> u64 set \<Rightarrow> u64 \<Rightarrow> u64 list \<Rightarrow> u64 list option option" where
  "hashes_of hs seen duplicate rv [] = Some (Some [])"
| "hashes_of hs seen duplicate rv (k # ks) =
     (case Table hs rv k of
        None \<Rightarrow> None
      | Some h \<Rightarrow>
          if h \<in> seen then Some None
          else if h \<in> duplicate then Some None
          else (case hashes_of hs seen (insert h duplicate) rv ks of
                  None \<Rightarrow> None
                | Some None \<Rightarrow> Some None
                | Some (Some hashes) \<Rightarrow> Some (Some (h # hashes))))"

text \<open>The last loop of \<open>tryHash\<close>: the bucket's keys and values go to their slots.\<close>

fun put_all :: "u64 list \<Rightarrow> u64 list \<Rightarrow> u64 list \<Rightarrow> u64 list \<Rightarrow> u64 list \<Rightarrow> (u64 list \<times> u64 list) option" where
  "put_all ks vs [] bk bv = Some (ks, vs)"
| "put_all ks vs (h # hashes) (k # bk) (v # bv) =
     do { ks' \<leftarrow> store ks (unat h) k; vs' \<leftarrow> store vs (unat h) v; put_all ks' vs' hashes bk bv }"
| "put_all ks vs (h # hashes) bk bv = None"

definition tryHash :: "chdHasher \<Rightarrow> tables \<Rightarrow> bucket \<Rightarrow> u16 \<Rightarrow> u64 \<Rightarrow> (bool \<times> tables) option" where
  "tryHash hs t b ri rv =
     (case hashes_of hs (t_seen t) {} rv (bucket_keys b) of
        None \<Rightarrow> None
      | Some None \<Rightarrow> Some (False, t)
      | Some (Some hashes) \<Rightarrow> do {
          indices' \<leftarrow> store (t_indices t) (unat (bucket_index b)) ri;
          (ks', vs') \<leftarrow> put_all (t_keys t) (t_values t) hashes (bucket_keys b) (bucket_values b);
          Some (True, \<lparr>t_seen = t_seen t \<union> set hashes, t_keys = ks', t_values = vs',
                       t_indices = indices'\<rparr>)
        })"

subsection \<open>Build\<close>

text \<open>The loop over the added pairs: the duplicate check and the partition into buckets.\<close>

fun fill :: "chdHasher \<Rightarrow> u64 set \<Rightarrow> bucket list \<Rightarrow> u64 list \<Rightarrow> u64 list \<Rightarrow> (error + bucket list) option" where
  "fill hs duplicates buckets [] vs = Some (Inr buckets)"
| "fill hs duplicates buckets (key # ks) [] = None"
| "fill hs duplicates buckets (key # ks) (val # vs) =
     (if key \<in> duplicates then Some (Inl (DuplicateKey key))
      else do {
        oh \<leftarrow> HashIndexFromKey hs key;
        old \<leftarrow> index buckets (unat oh);
        fill hs (insert key duplicates)
          (buckets[unat oh := \<lparr>bucket_index = oh, bucket_keys = bucket_keys old @ [key],
                               bucket_values = bucket_values old @ [val]\<rparr>]) ks vs
      })"

text \<open>The loop over the hash functions the hasher already holds.\<close>

fun try_existing :: "chdHasher \<Rightarrow> tables \<Rightarrow> bucket \<Rightarrow> nat \<Rightarrow> u64 list \<Rightarrow> (bool \<times> tables) option" where
  "try_existing hs t b ri [] = Some (False, t)"
| "try_existing hs t b ri (rv # rs) =
     (case tryHash hs t b (of_nat ri) rv of
        None \<Rightarrow> None
      | Some (True, t') \<Rightarrow> Some (True, t')
      | Some (False, t') \<Rightarrow> try_existing hs t' b (Suc ri) rs)"

text \<open>The loop that draws new hash functions, at most 10000000 of them.\<close>

function try_new :: "chdHasher \<Rightarrow> tables \<Rightarrow> bucket \<Rightarrow> nat \<Rightarrow> (bool \<times> chdHasher \<times> tables) option" where
  "try_new hs t b i =
     (if i < 10000000 then
        (case tryHash (snd (Generate hs)) t b (fst (fst (Generate hs))) (snd (fst (Generate hs))) of
           None \<Rightarrow> None
         | Some (True, t') \<Rightarrow> Some (True, hasher_Add (snd (Generate hs)) (snd (fst (Generate hs))), t')
         | Some (False, t') \<Rightarrow> try_new (snd (Generate hs)) t' b (Suc i))
      else Some (False, hs, t))"
  by pat_completeness auto
termination
  by (relation "measure (\<lambda>(hs, t, b, i). 10000000 - i)") auto

declare try_new.simps [simp del]

text \<open>The loop over the sorted buckets; \<open>i\<close> is the position and \<open>nb\<close> the number of buckets.\<close>

fun place :: "chdHasher \<Rightarrow> tables \<Rightarrow> nat \<Rightarrow> nat \<Rightarrow> bucket list \<Rightarrow> (error + chdHasher \<times> tables) option" where
  "place hs t i nb [] = Some (Inr (hs, t))"
| "place hs t i nb (b # bs) =
     (if length (bucket_keys b) = 0 then place hs t (Suc i) nb bs
      else (case try_existing hs t b 0 (h_r hs) of
              None \<Rightarrow> None
            | Some (True, t') \<Rightarrow> place hs t' (Suc i) nb bs
            | Some (False, t') \<Rightarrow>
                (case try_new hs t' b 0 of
                   None \<Rightarrow> None
                 | Some (True, hs', t'') \<Rightarrow> place hs' t'' (Suc i) nb bs
                 | Some (False, hs', t'') \<Rightarrow>
                     Some (Inl (HashSearchFailed i nb (bucket_keys b))))))"

text \<open>Build up to the sort: the sizes, the hasher and the buckets as the pairs fill them.\<close>

definition bucket_count :: "u64 \<Rightarrow> u64" where
  "bucket_count n = (if n div 2 = 0 then 1 else n div 2)"

definition partition_keys :: "env \<Rightarrow> CHDBuilder \<Rightarrow> (error + chdHasher \<times> bucket list) option" where
  "partition_keys E b =
     (let n = (of_nat (length (b_keys b)) :: u64);
          m = bucket_count n;
          hs = newCHDHasher E n m (b_seed b) (b_seeded b);
          buckets = replicate (unat m) \<lparr>bucket_index = 0, bucket_keys = [], bucket_values = []\<rparr>
      in case fill hs {} buckets (b_keys b) (b_values b) of
           None \<Rightarrow> None
         | Some (Inl err) \<Rightarrow> Some (Inl err)
         | Some (Inr buckets') \<Rightarrow> Some (Inr (hs, buckets')))"

definition Build :: "env \<Rightarrow> CHDBuilder \<Rightarrow> (CHD option \<times> error option) option" where
  "Build E b =
     (let n = (of_nat (length (b_keys b)) :: u64);
          m = bucket_count n;
          t0 = \<lparr>t_seen = {}, t_keys = replicate (unat n) 0, t_values = replicate (unat n) 0,
                t_indices = replicate (unat m) (NOT 0)\<rparr>
      in case partition_keys E b of
           None \<Rightarrow> None
         | Some (Inl err) \<Rightarrow> Some (None, Some err)
         | Some (Inr (hs, buckets)) \<Rightarrow>
             (case place hs t0 0 (length buckets) (sort_Sort E buckets) of
                None \<Rightarrow> None
              | Some (Inl err) \<Rightarrow> Some (None, Some err)
              | Some (Inr (hs', t)) \<Rightarrow>
                  Some (Some \<lparr>chd_r = h_r hs', chd_indices = t_indices t, chd_keys = t_keys t,
                               chd_values = t_values t\<rparr>, None)))"

text \<open>A builder after a sequence of \<open>Add\<close> calls.\<close>

definition adds :: "CHDBuilder \<Rightarrow> (u64 \<times> u64) list \<Rightarrow> CHDBuilder" where
  "adds b kvs = foldl (\<lambda>b' (k, v). Add b' k v) b kvs"

section \<open>The hash primitive as the specification words it\<close>

text \<open>
  FNV-1a over a byte string: start from the offset basis and, for every byte in order,
  XOR the byte in and then multiply by the prime. The little-endian bytes of a 64-bit
  key are its eight base-256 digits, lowest first.
\<close>

definition fnv_offset_basis :: u64 where
  "fnv_offset_basis = 14695981039346656037"

definition fnv_prime :: u64 where
  "fnv_prime = 1099511628211"

primrec fnv1a_from :: "u64 \<Rightarrow> byte list \<Rightarrow> u64" where
  "fnv1a_from h [] = h"
| "fnv1a_from h (c # cs) = fnv1a_from ((h XOR ucast c) * fnv_prime) cs"

definition fnv1a_64 :: "byte list \<Rightarrow> u64" where
  "fnv1a_64 bs = fnv1a_from fnv_offset_basis bs"

definition le_bytes8 :: "u64 \<Rightarrow> byte list" where
  "le_bytes8 key = map (\<lambda>i. of_nat (unat key div 256 ^ i mod 256)) [0..<8]"

text \<open>
  The \<open>k\<close> little-endian bytes of a number: its base-256 digits, lowest first.
\<close>

definition le_bytes :: "nat \<Rightarrow> nat \<Rightarrow> byte list" where
  "le_bytes k x = map (\<lambda>i. of_nat (x div 256 ^ i mod 256)) [0..<k]"

section \<open>An environment to run the builder in\<close>

text \<open>
  \<^verbatim>\<open>sort.Sort\<close> as the Go library up to version 1.18 runs it on a vector of at most twelve
  elements (\<^verbatim>\<open>quickSort\<close> skips its partition loop there): one Shell pass with gap 6,
  \<^verbatim>\<open>if data.Less(i, i-6) { data.Swap(i, i-6) }\<close> for \<open>i\<close> from 6 on, and then
  \<^verbatim>\<open>insertionSort\<close>, which moves each element left while it is \<open>Less\<close> than its left
  neighbour. \<open>insert_left\<close> is that inner loop on the reversed prefix. On a longer vector
  the library partitions first; \<open>go_Sort\<close> is only run on short ones here, and it meets
  the contract on every vector.
\<close>

function shell_pass :: "nat \<Rightarrow> bucket list \<Rightarrow> bucket list" where
  "shell_pass i data =
     (if i < length data then
        shell_pass (Suc i)
          (if Less (data ! i) (data ! (i - 6))
           then data[i := data ! (i - 6), i - 6 := data ! i] else data)
      else data)"
  by pat_completeness auto
termination
  by (relation "measure (\<lambda>(i, data). length data - i)") auto

declare shell_pass.simps [simp del]

fun insert_left :: "bucket \<Rightarrow> bucket list \<Rightarrow> bucket list" where
  "insert_left x [] = [x]"
| "insert_left x (y # rp) = (if Less x y then y # insert_left x rp else x # y # rp)"

definition insertionSort :: "bucket list \<Rightarrow> bucket list" where
  "insertionSort data = rev (foldl (\<lambda>rp x. insert_left x rp) [] data)"

definition go_Sort :: "bucket list \<Rightarrow> bucket list" where
  "go_Sort data = (if length data > 1 then insertionSort (shell_pass 6 data) else data)"

text \<open>
  A random source (a linear congruential sequence started at the seed) and a clock
  reading complete the environment.
\<close>

definition lcg :: "i64 \<Rightarrow> u64 stream" where
  "lcg seed = siterate (\<lambda>x. x * 6364136223846793005 + 1442695040888963407) seed"

definition E0 :: env where
  "E0 = \<lparr>sort_Sort = go_Sort, rand_New = lcg, time_Now = 42\<rparr>"

section \<open>Auxiliary notions for the statements\<close>

text \<open>
  The first key of a list that repeats a key of \<open>S\<close> or an earlier key of the list: the
  key at which the duplicate check of \<open>Build\<close> fires.
\<close>

fun first_repeat :: "u64 set \<Rightarrow> u64 list \<Rightarrow> u64 option" where
  "first_repeat S [] = None"
| "first_repeat S (k # ks) = (if k \<in> S then Some k else first_repeat (insert k S) ks)"

text \<open>
  The bytes a successful build leaves in a \<^verbatim>\<open>bytes.Buffer\<close> when its structure is
  written out, as the tests of the repository do.
\<close>

definition serialized :: "(CHD option \<times> error option) option \<Rightarrow> byte list option" where
  "serialized res =
     (case res of Some (Some c, None) \<Rightarrow> Some (fst (Write buffer_Write [] c)) | _ \<Rightarrow> None)"

section \<open>Example inputs\<close>

text \<open>
  The structure that \<open>Build\<close> returns in \<open>E0\<close> for the pairs (1,10), (2,20), (3,30), (4,40),
  and a seeded builder with fourteen pairs with the buckets its keys fall into.
\<close>

definition chd4 :: CHD where
  "chd4 = \<lparr>chd_r = [42], chd_indices = [0, 0], chd_keys = [1, 4, 3, 2],
            chd_values = [10, 40, 30, 20]\<rparr>"




section \<open>The example sort meets the contract of sort.Sort\<close>

lemma mset_shell_pass: "mset (shell_pass i data) = mset data"
proof (induction i data rule: shell_pass.induct)
  case (1 i data)
  show ?case
  proof (cases "i < length data")
    case True
    let ?d = "if Less (data ! i) (data ! (i - 6))
           then data[i := data ! (i - 6), i - 6 := data ! i] else data"
    have "mset ?d = mset data"
      using True by (simp add: mset_swap)
    moreover have "shell_pass i data = shell_pass (Suc i) ?d"
      using True by (subst shell_pass.simps) simp
    ultimately show ?thesis
      using "1.IH"[OF True] by simp
  next
    case False
    then show ?thesis by (subst shell_pass.simps) simp
  qed
qed

lemma mset_insert_left: "mset (insert_left x rp) = add_mset x (mset rp)"
  by (induction rp) simp_all

lemma set_insert_left: "set (insert_left x rp) = insert x (set rp)"
  by (induction rp) auto

lemma sorted_insert_left:
  "sorted_wrt (\<lambda>a b. \<not> Less a b) rp \<Longrightarrow> sorted_wrt (\<lambda>a b. \<not> Less a b) (insert_left x rp)"
  by (induction rp) (auto simp: set_insert_left Less_def)

lemma foldl_insert_left:
  "mset (foldl (\<lambda>rp x. insert_left x rp) acc data) = mset acc + mset data"
  by (induction data arbitrary: acc) (simp_all add: mset_insert_left)

lemma sorted_foldl_insert_left:
  "sorted_wrt (\<lambda>a b. \<not> Less a b) acc \<Longrightarrow>
   sorted_wrt (\<lambda>a b. \<not> Less a b) (foldl (\<lambda>rp x. insert_left x rp) acc data)"
  by (induction data arbitrary: acc) (simp_all add: sorted_insert_left)

lemma mset_insertionSort: "mset (insertionSort data) = mset data"
  by (simp add: insertionSort_def foldl_insert_left)

lemma sorted_insertionSort: "sorted_wrt (\<lambda>x y. \<not> Less y x) (insertionSort data)"
  using sorted_foldl_insert_left[of "[]" data] by (simp add: insertionSort_def sorted_wrt_rev)

lemma sort_contract_go_Sort: "sort_contract go_Sort"
  unfolding sort_contract_def
proof (intro allI conjI)
  fix bs
  show "mset (go_Sort bs) = mset bs"
    by (simp add: go_Sort_def mset_insertionSort mset_shell_pass)
  show "sorted_wrt (\<lambda>x y. \<not> Less y x) (go_Sort bs)"
  proof (cases "length bs > 1")
    case True
    then show ?thesis by (simp add: go_Sort_def sorted_insertionSort)
  next
    case False
    then have "bs = [] \<or> (\<exists>x. bs = [x])"
      by (cases bs) auto
    then show ?thesis using False by (auto simp: go_Sort_def)
  qed
qed

section \<open>Builders and the hasher of a build\<close>

lemma adds_fields:
  "b_keys (adds b kvs) = b_keys b @ map fst kvs"
  "b_values (adds b kvs) = b_values b @ map snd kvs"
  "b_seed (adds b kvs) = b_seed b"
  "b_seeded (adds b kvs) = b_seeded b"
  by (induction kvs arbitrary: b) (simp_all add: adds_def Add_def split_beta)

lemma adds_Seed: "adds (Seed b s) kvs = Seed (adds b kvs) s"
  by (rule CHDBuilder.equality) (simp_all add: adds_fields Seed_def)

lemma Build_seeded_clock:
  "Build (E\<lparr>time_Now := t1\<rparr>) (Seed b s) = Build (E\<lparr>time_Now := t2\<rparr>) (Seed b s)"
  by (simp add: Build_def partition_keys_def newCHDHasher_def Seed_def
      cong: option.case_cong sum.case_cong)

lemma bucket_count_nonzero: "bucket_count n \<noteq> 0"
  by (simp add: bucket_count_def)

lemma newCHDHasher_fields:
  "h_r (newCHDHasher E sz bk seed seeded) = [shd (rand_New E (if seeded then seed else time_Now E))]"
  "h_size (newCHDHasher E sz bk seed seeded) = sz"
  "h_buckets (newCHDHasher E sz bk seed seeded) = bk"
  by (simp_all add: newCHDHasher_def hasher_Add_def Let_def)

section \<open>The duplicate check\<close>

lemma first_repeat_None: "first_repeat S ks = None \<longleftrightarrow> distinct ks \<and> set ks \<inter> S = {}"
  by (induction ks arbitrary: S) auto

lemma first_repeat_Some:
  "first_repeat S ks = Some k \<Longrightarrow>
   \<exists>pre post. ks = pre @ k # post \<and> distinct pre \<and> set pre \<inter> S = {} \<and> (k \<in> S \<or> k \<in> set pre)"
proof (induction ks arbitrary: S)
  case Nil
  then show ?case by simp
next
  case (Cons a ks)
  show ?case
  proof (cases "a \<in> S")
    case True
    with Cons.prems have "k = a" by simp
    with True show ?thesis by (intro exI[of _ "[]"] exI[of _ ks]) simp
  next
    case False
    with Cons.prems have "first_repeat (insert a S) ks = Some k" by simp
    from Cons.IH[OF this] obtain pre post where
      p: "ks = pre @ k # post" "distinct pre" "set pre \<inter> insert a S = {}" "k \<in> insert a S \<or> k \<in> set pre"
      by blast
    show ?thesis
      using p False by (intro exI[of _ "a # pre"] exI[of _ post]) auto
  qed
qed

lemma HashIndexFromKey_Some:
  "h_r hs \<noteq> [] \<Longrightarrow> h_buckets hs \<noteq> 0 \<Longrightarrow>
   \<exists>oh. HashIndexFromKey hs key = Some oh \<and> unat oh < unat (h_buckets hs)"
  by (cases "h_r hs") (auto simp: HashIndexFromKey_def index_def umod_def word_less_nat_alt[symmetric] word_mod_less_divisor word_neq_0_conv)

lemma fill_result:
  assumes "h_r hs \<noteq> []" "h_buckets hs \<noteq> 0" "length bs = unat (h_buckets hs)" "length vs = length ks"
  shows "case first_repeat S ks of
           Some k \<Rightarrow> fill hs S bs ks vs = Some (Inl (DuplicateKey k))
         | None \<Rightarrow> \<exists>bs'. fill hs S bs ks vs = Some (Inr bs') \<and> length bs' = length bs"
  using assms
proof (induction hs S bs ks vs rule: fill.induct)
  case (1 hs duplicates buckets vs)
  then show ?case by simp
next
  case (2 hs duplicates buckets key ks)
  then show ?case by simp
next
  case (3 hs duplicates buckets key ks val vs)
  show ?case
  proof (cases "key \<in> duplicates")
    case True
    then show ?thesis by simp
  next
    case False
    from HashIndexFromKey_Some[OF "3.prems"(1,2)] obtain oh where
      oh: "HashIndexFromKey hs key = Some oh" "unat oh < unat (h_buckets hs)" by blast
    have ix: "index buckets (unat oh) = Some (buckets ! unat oh)"
      using oh "3.prems" by (simp add: index_def)
    let ?bs = "buckets[unat oh := \<lparr>bucket_index = oh, bucket_keys = bucket_keys (buckets ! unat oh) @ [key],
                               bucket_values = bucket_values (buckets ! unat oh) @ [val]\<rparr>]"
    have IH: "case first_repeat (insert key duplicates) ks of
           Some k \<Rightarrow> fill hs (insert key duplicates) ?bs ks vs = Some (Inl (DuplicateKey k))
         | None \<Rightarrow> \<exists>bs'. fill hs (insert key duplicates) ?bs ks vs = Some (Inr bs') \<and> length bs' = length ?bs"
      using "3.IH"[OF False oh(1) ix] "3.prems" by simp
    show ?thesis
      using False oh ix IH by (simp split: option.splits)
  qed
qed


lemma partition_keys_duplicate:
  assumes "length (b_values b) = length (b_keys b)" "first_repeat {} (b_keys b) = Some k"
  shows "partition_keys E b = Some (Inl (DuplicateKey k))"
proof -
  let ?n = "of_nat (length (b_keys b)) :: u64"
  let ?hs = "newCHDHasher E ?n (bucket_count ?n) (b_seed b) (b_seeded b)"
  let ?bs = "replicate (unat (bucket_count ?n)) \<lparr>bucket_index = 0, bucket_keys = [], bucket_values = []\<rparr>"
  have "fill ?hs {} ?bs (b_keys b) (b_values b) = Some (Inl (DuplicateKey k))"
    using fill_result[of ?hs ?bs "b_values b" "b_keys b" "{}"] assms
    by (simp add: newCHDHasher_fields bucket_count_nonzero)
  then show ?thesis by (simp add: partition_keys_def Let_def)
qed

text \<open>
  Claim C4. When the added keys are not pairwise distinct, whatever the values, \<open>Build\<close>
  returns no structure (\<^verbatim>\<open>nil\<close>) and the duplicate-key error. The key it names is the
  first one whose repetition the loop meets: every key before it in insertion order is
  distinct, and it is one of them. With a single key added twice, that is the key.
\<close>

theorem C4_duplicate_key:
  assumes "length (b_values b) = length (b_keys b)" and "\<not> distinct (b_keys b)"
  shows "\<exists>k pre post. Build E b = Some (None, Some (DuplicateKey k)) \<and>
           b_keys b = pre @ k # post \<and> distinct pre \<and> k \<in> set pre"
proof -
  from assms(2) obtain k where k: "first_repeat {} (b_keys b) = Some k"
    using first_repeat_None[of "{}" "b_keys b"] by (cases "first_repeat {} (b_keys b)") auto
  from first_repeat_Some[OF k] obtain pre post where
    "b_keys b = pre @ k # post" "distinct pre" "k \<in> set pre" by auto
  moreover have "Build E b = Some (None, Some (DuplicateKey k))"
    using partition_keys_duplicate[OF assms(1) k] by (simp add: Build_def Let_def)
  ultimately show ?thesis by blast
qed

theorem C4_duplicate_key_witness:
  "length (b_values (adds Builder [(1, 10), (2, 20), (1, 30)])) = length (b_keys (adds Builder [(1, 10), (2, 20), (1, 30)]))
   \<and> \<not> distinct (b_keys (adds Builder [(1, 10), (2, 20), (1, 30)]))
   \<and> Build E0 (adds Builder [(1, 10), (2, 20), (1, 30)]) = Some (None, Some (DuplicateKey 1))"
proof -
  let ?b = "adds Builder [(1, 10), (2, 20), (1, 30)]"
  have l: "length (b_values ?b) = length (b_keys ?b)" by (simp add: adds_fields Builder_def)
  have d: "\<not> distinct (b_keys ?b)" by (simp add: adds_fields Builder_def)
  from C4_duplicate_key[OF l d, of E0] obtain k pre post where
    r: "Build E0 ?b = Some (None, Some (DuplicateKey k))" "b_keys ?b = pre @ k # post" "distinct pre" "k \<in> set pre"
    by blast
  have "b_keys ?b = [1, 2, 1]" by (simp add: adds_fields Builder_def)
  with r(2,3,4) have "k = 1"
    by (cases pre; cases "tl pre"; cases "tl (tl pre)") auto
  with r(1) l d show ?thesis by simp
qed

section \<open>The hash primitive\<close>

lemma byte_of_drop_bit:
  "(ucast (drop_bit (8 * i) (v::u64)) :: byte) = of_nat (unat v div 256 ^ i mod 256)"
  by (simp only: word_unat_eq_iff unsigned_ucast_eq unat_drop_bit_eq unat_of_nat)
    (simp add: take_bit_eq_mod drop_bit_eq_div power_mult)

lemma upt_0_8: "[0..<8] = [0, 1, 2, 3, 4, 5, 6, 7]"
  by (simp add: upt_rec)

lemma PutUint64_le_bytes8: "PutUint64 v = le_bytes8 v"
  using byte_of_drop_bit[of 0 v] byte_of_drop_bit[of 1 v] byte_of_drop_bit[of 2 v]
    byte_of_drop_bit[of 3 v] byte_of_drop_bit[of 4 v] byte_of_drop_bit[of 5 v]
    byte_of_drop_bit[of 6 v] byte_of_drop_bit[of 7 v]
  by (simp add: PutUint64_def le_bytes8_def upt_0_8)

lemma foldl_fnv1a:
  "foldl (\<lambda>hash c. (hash XOR ucast c) * 1099511628211) h bs = fnv1a_from h bs"
  by (induction bs arbitrary: h) (simp_all add: fnv_prime_def)

text \<open>
  Claim C7. \<open>hasher\<close> is FNV-1a (offset basis 14695981039346656037, prime 1099511628211,
  XOR the byte in, then multiply) over the eight little-endian bytes of the key. The
  candidate slot \<open>Table\<close> computes for a trial salt \<open>rv\<close> is
  \<open>(digest XOR r0 XOR rv) mod n\<close>, the salt entering by XOR alone before the reduction,
  where \<open>r0\<close> is the first salt of the hasher and \<open>n\<close> its size; \<open>Build\<close> creates the
  hasher with the number of pairs as size and one drawn salt. (With \<open>n = 0\<close> the
  reduction would panic.)
\<close>

theorem C7_hash_primitive:
  "hasher key = fnv1a_64 (le_bytes8 key) \<and>
   Table \<lparr>h_r = r0 # rs, h_size = n, h_buckets = m, h_rand = g\<rparr> rv key =
     (if n = 0 then None else Some ((fnv1a_64 (le_bytes8 key) XOR r0 XOR rv) mod n)) \<and>
   h_size (newCHDHasher E sz bk seed seeded) = sz \<and>
   h_r (newCHDHasher E sz bk seed seeded) = [shd (rand_New E (if seeded then seed else time_Now E))]"
proof -
  have h: "hasher key = fnv1a_64 (le_bytes8 key)"
    by (simp add: hasher_def fnv1a_64_def foldl_fnv1a fnv_offset_basis_def PutUint64_le_bytes8)
  show ?thesis
    by (simp add: h[symmetric] Table_def index_def umod_def newCHDHasher_fields)
qed

section \<open>Mmap\<close>

text \<open>
  Claim C10. Whenever \<open>Mmap\<close> returns at all (it may panic on a short region), it
  returns a structure and the \<^verbatim>\<open>nil\<close> error: no input makes it return an error.
\<close>

theorem C10_Mmap_no_error:
  assumes "Mmap b = Some res"
  shows "\<exists>c. res = (Some c, None)"
  using assms by (auto simp: Mmap_def split: Option.bind_splits prod.splits)

theorem C10_Mmap_no_error_witness:
  "Mmap [1,0,0,0, 42,0,0,0,0,0,0,0, 1,0,0,0, 0,0, 1,0,0,0, 13,0,0,0,0,0,0,0, 37,0,0,0,0,0,0,0]
     = Some (Some \<lparr>chd_r = [42], chd_indices = [0], chd_keys = [13], chd_values = [37]\<rparr>, None)
   \<and> (\<exists>c. (Some \<lparr>chd_r = [42], chd_indices = [0], chd_keys = [13], chd_values = [37]\<rparr>, None :: error option) = (Some c, None))"
proof -
  have e: "Mmap [1,0,0,0, 42,0,0,0,0,0,0,0, 1,0,0,0, 0,0, 1,0,0,0, 13,0,0,0,0,0,0,0, 37,0,0,0,0,0,0,0]
     = Some (Some \<lparr>chd_r = [42], chd_indices = [0], chd_keys = [13], chd_values = [37]\<rparr>, None)"
    by (simp add: Mmap_def ReadInt_def read_def ReadUint64Array_def ReadUint16Array_def
        Uint32_def Uint64_def Uint16_def Let_def)
  from C10_Mmap_no_error[OF e] e show ?thesis by simp
qed

section \<open>Determinism of a seeded build\<close>

text \<open>
  Claim C5. Two builders seeded with the same value (before or after the pairs are
  added) and given the same pairs in the same order build the same result whatever the
  clock reads, so the bytes their structures serialize to are identical.
\<close>

theorem C5_seeded_build_deterministic:
  "Build (E\<lparr>time_Now := t1\<rparr>) (adds (Seed Builder s) kvs) =
     Build (E\<lparr>time_Now := t2\<rparr>) (Seed (adds Builder kvs) s) \<and>
   serialized (Build (E\<lparr>time_Now := t1\<rparr>) (adds (Seed Builder s) kvs)) =
     serialized (Build (E\<lparr>time_Now := t2\<rparr>) (Seed (adds Builder kvs) s))"
  by (simp add: adds_Seed Build_seeded_clock[where ?t1.0=t1 and ?t2.0=t2])


section \<open>The shape of the tables through the placement\<close>

lemma store_length: "store xs i v = Some ys \<Longrightarrow> length ys = length xs"
  by (auto simp: store_def split: if_splits)

lemma put_all_length:
  "put_all ks vs hashes bk bv = Some (ks', vs') \<Longrightarrow>
   length ks' = length ks \<and> length vs' = length vs"
proof (induction ks vs hashes bk bv rule: put_all.induct)
  case (2 ks vs h hashes k bk v bv)
  then show ?case
    by (auto split: Option.bind_splits dest!: store_length)
qed simp_all

lemma tryHash_False: "tryHash hs t b ri rv = Some (False, t') \<Longrightarrow> t' = t"
  by (auto simp: tryHash_def split: option.splits Option.bind_splits prod.splits)

lemma tryHash_length:
  assumes "tryHash hs t b ri rv = Some (ok, t')"
  shows "length (t_keys t') = length (t_keys t) \<and> length (t_values t') = length (t_values t)
         \<and> length (t_indices t') = length (t_indices t)"
  using assms
  by (auto simp: tryHash_def split: option.splits Option.bind_splits prod.splits
      dest!: store_length put_all_length)

lemma hashes_of_size_0:
  "h_size hs = 0 \<Longrightarrow> ks \<noteq> [] \<Longrightarrow> hashes_of hs seen dup rv ks = None"
  by (cases ks) (auto simp: Table_def umod_def split: Option.bind_splits)

lemma tryHash_size_0:
  "h_size hs = 0 \<Longrightarrow> bucket_keys b \<noteq> [] \<Longrightarrow> tryHash hs t b ri rv = None"
  by (simp add: tryHash_def hashes_of_size_0)

lemma try_existing_False:
  "try_existing hs t b ri rs = Some (False, t') \<Longrightarrow> t' = t"
proof (induction rs arbitrary: ri t)
  case Nil
  then show ?case by simp
next
  case (Cons rv rs)
  then show ?case
    by (auto split: option.splits prod.splits bool.splits dest: tryHash_False)
qed

lemma try_existing_length:
  "try_existing hs t b ri rs = Some (ok, t') \<Longrightarrow>
   length (t_keys t') = length (t_keys t) \<and> length (t_values t') = length (t_values t)
   \<and> length (t_indices t') = length (t_indices t)"
proof (induction rs arbitrary: ri t)
  case Nil
  then show ?case by simp
next
  case (Cons rv rs)
  from Cons.prems show ?case
  proof (cases "tryHash hs t b (of_nat ri) rv")
    case None
    with Cons.prems show ?thesis by simp
  next
    case (Some res)
    obtain ok1 t1 where res: "res = (ok1, t1)" by (cases res)
    show ?thesis
    proof (cases ok1)
      case True
      with Some res Cons.prems tryHash_length[of hs t b "of_nat ri" rv True t1] show ?thesis by simp
    next
      case False
      with Some res have "t1 = t" by (auto dest: tryHash_False)
      with Some res False Cons.prems Cons.IH[of t "Suc ri"] show ?thesis by simp
    qed
  qed
qed

lemma try_existing_size_0:
  "h_size hs = 0 \<Longrightarrow> bucket_keys b \<noteq> [] \<Longrightarrow> rs \<noteq> [] \<Longrightarrow> try_existing hs t b ri rs = None"
  by (cases rs) (simp_all add: tryHash_size_0)

lemma Generate_fields:
  "h_r (snd (Generate hs)) = h_r hs" "h_size (snd (Generate hs)) = h_size hs"
  "h_buckets (snd (Generate hs)) = h_buckets hs"
  by (simp_all add: Generate_def)

lemma try_new_shape:
  "try_new hs t b i = Some (ok, hs', t') \<Longrightarrow>
   length (t_keys t') = length (t_keys t) \<and> length (t_values t') = length (t_values t)
   \<and> length (t_indices t') = length (t_indices t)
   \<and> h_size hs' = h_size hs \<and> h_buckets hs' = h_buckets hs
   \<and> (ok \<longrightarrow> (\<exists>rv. h_r hs' = h_r hs @ [rv])) \<and> (\<not> ok \<longrightarrow> h_r hs' = h_r hs \<and> t' = t)"
proof (induction hs t b i rule: try_new.induct)
  case (1 hs t b i)
  let ?g = "Generate hs"
  show ?case
  proof (cases "i < 10000000")
    case False
    with "1.prems" show ?thesis by (simp add: try_new.simps)
  next
    case True
    show ?thesis
    proof (cases "tryHash (snd ?g) t b (fst (fst ?g)) (snd (fst ?g))")
      case None
      with True "1.prems" show ?thesis by (simp add: try_new.simps)
    next
      case (Some res)
      obtain ok1 t1 where res: "res = (ok1, t1)" by (cases res)
      show ?thesis
      proof (cases ok1)
        case True
        with Some res \<open>i < 10000000\<close> "1.prems"
        have "ok" "hs' = hasher_Add (snd ?g) (snd (fst ?g))" "t' = t1"
          by (simp_all add: try_new.simps)
        with tryHash_length[of "snd ?g" t b "fst (fst ?g)" "snd (fst ?g)" True t1] Some res True
        show ?thesis by (simp add: hasher_Add_def Generate_fields)
      next
        case False
        with Some res have t1: "t1 = t" by (auto dest: tryHash_False)
        from Some res False \<open>i < 10000000\<close> "1.prems"
        have "try_new (snd ?g) t1 b (Suc i) = Some (ok, hs', t')"
          by (simp add: try_new.simps)
        moreover have "ok1 = False" using False by simp
        ultimately show ?thesis
          using "1.IH"[OF \<open>i < 10000000\<close> Some res[symmetric]] t1
          by (simp add: Generate_fields)
      qed
    qed
  qed
qed

lemma place_shape:
  "place hs t i nb bs = Some (Inr (hs', t')) \<Longrightarrow> h_r hs \<noteq> [] \<Longrightarrow>
   length (t_keys t') = length (t_keys t) \<and> length (t_values t') = length (t_values t)
   \<and> length (t_indices t') = length (t_indices t)
   \<and> h_r hs' \<noteq> [] \<and> (h_size hs = 0 \<longrightarrow> hs' = hs \<and> t' = t)"
proof (induction bs arbitrary: hs t i)
  case Nil
  then show ?case by simp
next
  case (Cons b bs)
  show ?case
  proof (cases "length (bucket_keys b) = 0")
    case True
    with Cons.prems Cons.IH[of hs t "Suc i"] show ?thesis by simp
  next
    case False
    then have ne: "bucket_keys b \<noteq> []" by simp
    have sz: "h_size hs \<noteq> 0"
    proof
      assume "h_size hs = 0"
      then have "try_existing hs t b 0 (h_r hs) = None"
        using ne Cons.prems(2) by (rule try_existing_size_0)
      with False Cons.prems(1) show False by simp
    qed
    show ?thesis
    proof (cases "try_existing hs t b 0 (h_r hs)")
      case None
      with False Cons.prems show ?thesis by simp
    next
      case (Some res)
      obtain ok1 t1 where res: "res = (ok1, t1)" by (cases res)
      note l1 = try_existing_length[OF Some[unfolded res]]
      show ?thesis
      proof (cases ok1)
        case True
        with Some res False Cons.prems have "place hs t1 (Suc i) nb bs = Some (Inr (hs', t'))"
          by simp
        from Cons.IH[OF this Cons.prems(2)] l1 sz show ?thesis by simp
      next
        case nok: False
        show ?thesis
        proof (cases "try_new hs t1 b 0")
          case None
          with Some res False nok Cons.prems show ?thesis by simp
        next
          case (Some res2)
          obtain ok2 hs2 t2 where res2: "res2 = (ok2, hs2, t2)" by (cases res2)
          note l2 = try_new_shape[OF Some[unfolded res2]]
          show ?thesis
          proof (cases ok2)
            case True
            with Some res2 \<open>try_existing hs t b 0 (h_r hs) = Some res\<close> res False nok Cons.prems
            have p: "place hs2 t2 (Suc i) nb bs = Some (Inr (hs', t'))"
              by simp
            have "h_r hs2 \<noteq> []" using l2 True by auto
            from Cons.IH[OF p this] l1 l2 sz show ?thesis by simp
          next
            case False
            with Some res2 \<open>try_existing hs t b 0 (h_r hs) = Some res\<close> res
              \<open>length (bucket_keys b) \<noteq> 0\<close> nok Cons.prems
            show ?thesis by simp
          qed
        qed
      qed
    qed
  qed
qed

lemma fill_length:
  "fill hs S bs ks vs = Some (Inr bs') \<Longrightarrow> length bs' = length bs"
proof (induction hs S bs ks vs rule: fill.induct)
  case (3 hs duplicates buckets key ks val vs)
  then show ?case
    by (auto split: if_splits Option.bind_splits)
qed simp_all

lemma Build_shape:
  assumes "Build E b = Some (Some c, None)"
  shows "chd_r c \<noteq> []"
    and "length (chd_indices c) = unat (bucket_count (of_nat (length (b_keys b))))"
    and "length (chd_keys c) = unat (of_nat (length (b_keys b)) :: u64)"
    and "length (chd_values c) = unat (of_nat (length (b_keys b)) :: u64)"
    and "(of_nat (length (b_keys b)) :: u64) = 0 \<Longrightarrow> length (chd_r c) = 1 \<and> chd_indices c = [- 1]"
proof -
  let ?n = "of_nat (length (b_keys b)) :: u64"
  let ?m = "bucket_count ?n"
  let ?t0 = "\<lparr>t_seen = {}, t_keys = replicate (unat ?n) 0, t_values = replicate (unat ?n) 0,
                t_indices = replicate (unat ?m) (NOT 0)\<rparr>"
  let ?hs = "newCHDHasher E ?n ?m (b_seed b) (b_seeded b)"
  from assms obtain buckets where pk: "partition_keys E b = Some (Inr (?hs, buckets))"
    by (auto simp: Build_def partition_keys_def Let_def split: option.splits sum.splits)
  with assms obtain hs' t where
    pl: "place ?hs ?t0 0 (length buckets) (sort_Sort E buckets) = Some (Inr (hs', t))"
    and c: "c = \<lparr>chd_r = h_r hs', chd_indices = t_indices t, chd_keys = t_keys t, chd_values = t_values t\<rparr>"
    by (auto simp: Build_def Let_def split: option.splits sum.splits)
  have r: "h_r ?hs \<noteq> []" by (simp add: newCHDHasher_def hasher_Add_def Let_def)
  note sh = place_shape[OF pl r]
  show "chd_r c \<noteq> []" using sh c by simp
  show "length (chd_indices c) = unat ?m" using sh c by simp
  show "length (chd_keys c) = unat ?n" using sh c by simp
  show "length (chd_values c) = unat ?n" using sh c by simp
  show "length (chd_r c) = 1 \<and> chd_indices c = [- 1]" if "?n = 0"
  proof -
    have "h_size ?hs = 0" using that by (simp add: newCHDHasher_def hasher_Add_def Let_def)
    with sh have "hs' = ?hs" "t = ?t0" by simp_all
    then show ?thesis using c that
      by (simp add: newCHDHasher_def hasher_Add_def Let_def bucket_count_def)
  qed
qed

section \<open>Evaluating the hash and the example builds\<close>

lemma hasher_1: "hasher 1 = 9929646806074584996"
  by (simp add: hasher_def PutUint64_def)
lemma hasher_2: "hasher 2 = 16626593026977353223"
  by (simp add: hasher_def PutUint64_def)
lemma hasher_3: "hasher 3 = 14394277620009763814"
  by (simp add: hasher_def PutUint64_def)
lemma hasher_4: "hasher 4 = 3232700585171816769"
  by (simp add: hasher_def PutUint64_def)

lemma replicate_2: "replicate 2 x = [x, x]"
  by (simp add: numeral_2_eq_2)
lemma replicate_4: "replicate 4 x = [x, x, x, x]"
  by (simp add: numeral_eq_Suc)



lemma Build_E0_four:
  "Build E0 (adds Builder [(1, 10), (2, 20), (3, 30), (4, 40)]) = Some (Some chd4, None)"
  by (simp add: Build_def partition_keys_def bucket_count_def newCHDHasher_def hasher_Add_def
      Builder_def Add_def adds_def E0_def lcg_def go_Sort_def insertionSort_def shell_pass.simps Less_def
      HashIndexFromKey_def Table_def tryHash_def index_def store_def umod_def Let_def
      replicate_2 replicate_4 hasher_1 hasher_2 hasher_3 hasher_4 chd4_def)

lemma Get_chd4_2: "Get chd4 2 = Some 20"
  by (simp add: Get_def index_def umod_def hasher_2 chd4_def)



section \<open>Get on a built structure\<close>

lemma unat_mod_less: "m \<noteq> 0 \<Longrightarrow> unat (x mod m) < unat (m :: 'a::len word)"
  by (simp add: word_less_nat_alt[symmetric] word_mod_less_divisor word_neq_0_conv)

lemma unat_less_of_nat: "(x :: 'a::len word) < of_nat L \<Longrightarrow> unat x < L"
proof -
  assume "x < of_nat L"
  then have "unat x < unat (of_nat L :: 'a word)" by (simp add: word_less_nat_alt)
  also have "\<dots> \<le> L" by (simp add: unat_of_nat)
  finally show ?thesis .
qed

lemma Get_result:
  assumes r: "chd_r c \<noteq> []"
    and li: "length (chd_indices c) = unat (m::u64)" "m \<noteq> 0"
    and lk: "length (chd_keys c) = unat (n::u64)" and lv: "length (chd_values c) = unat n"
    and z: "n = 0 \<Longrightarrow> length (chd_r c) = 1 \<and> chd_indices c = [- 1]"
  shows "\<exists>v. Get c key = Some v \<and>
           (v \<noteq> - 1 \<longrightarrow>
             (let h = hasher key XOR chd_r c ! 0;
                  ri = chd_indices c ! unat (h mod of_nat (length (chd_indices c)));
                  ti = unat ((h XOR chd_r c ! unat ri) mod of_nat (length (chd_keys c)))
              in ti < length (chd_keys c) \<and> chd_keys c ! ti = key \<and> chd_values c ! ti = v))"
proof -
  define h where "h = hasher key XOR chd_r c ! 0"
  define i where "i = h mod m"
  define ri where "ri = chd_indices c ! unat i"
  have m: "of_nat (length (chd_indices c)) = m" using li by simp
  have n: "of_nat (length (chd_keys c)) = n" using lk by simp
  have i: "unat i < length (chd_indices c)" using li by (simp add: i_def unat_mod_less)
  have g0: "Get c key =
      (if ri \<ge> of_nat (length (chd_r c)) then Some (- 1)
       else do {
         rv \<leftarrow> index (chd_r c) (unat ri);
         ti \<leftarrow> umod (h XOR rv) n;
         k \<leftarrow> index (chd_keys c) (unat ti);
         if k \<noteq> key then Some (- 1) else index (chd_values c) (unat ti) })"
    using r i li(2) by (simp add: Get_def index_def umod_def m n h_def i_def ri_def Let_def)
  show ?thesis
  proof (cases "ri \<ge> of_nat (length (chd_r c))")
    case True
    then show ?thesis by (simp add: g0)
  next
    case False
    then have rlt: "unat ri < length (chd_r c)" by (simp add: unat_less_of_nat not_le)
    have n0: "n \<noteq> 0"
    proof
      assume "n = 0"
      from z[OF this] have "length (chd_r c) = 1" "chd_indices c = [- 1]" by simp_all
      with i have "ri = - 1" by (simp add: ri_def)
      with False \<open>length (chd_r c) = 1\<close> show False by simp
    qed
    define ti where "ti = (h XOR chd_r c ! unat ri) mod n"
    have ti: "unat ti < length (chd_keys c)" "unat ti < length (chd_values c)"
      using lk lv n0 by (simp_all add: ti_def unat_mod_less)
    have g1: "Get c key = (if chd_keys c ! unat ti \<noteq> key then Some (- 1) else Some (chd_values c ! unat ti))"
      using False rlt n0 ti by (simp add: g0 index_def umod_def ti_def)
    show ?thesis
      using ti by (auto simp: g1 Let_def h_def i_def ri_def ti_def m n)
  qed
qed

text \<open>
  Claim C3. On the structure of a successful build, \<open>Get\<close> of any key (added or not)
  returns without a panic, and whenever what it returns is not the sentinel, the slot it
  read is inside the table, holds exactly that key in the key array, and the value
  returned is the one stored in the same slot: the answer never comes from a slot that
  holds another key.
\<close>

theorem C3_exact_key:
  assumes "Build E b = Some (Some c, None)"
  shows "\<exists>v. Get c key = Some v \<and>
           (v \<noteq> - 1 \<longrightarrow>
             (let h = hasher key XOR chd_r c ! 0;
                  ri = chd_indices c ! unat (h mod of_nat (length (chd_indices c)));
                  ti = unat ((h XOR chd_r c ! unat ri) mod of_nat (length (chd_keys c)))
              in ti < length (chd_keys c) \<and> chd_keys c ! ti = key \<and> chd_values c ! ti = v))"
  using Build_shape[OF assms]
  by (intro Get_result[where m = "bucket_count (of_nat (length (b_keys b)))"
        and n = "of_nat (length (b_keys b))"]) (simp_all add: bucket_count_def)

theorem C3_exact_key_witness:
  "Build E0 (adds Builder [(1, 10), (2, 20), (3, 30), (4, 40)]) = Some (Some chd4, None) \<and>
   Get chd4 2 = Some 20 \<and> (20 :: u64) \<noteq> - 1 \<and>
   (let h = hasher 2 XOR chd_r chd4 ! 0;
        ri = chd_indices chd4 ! unat (h mod of_nat (length (chd_indices chd4)));
        ti = unat ((h XOR chd_r chd4 ! unat ri) mod of_nat (length (chd_keys chd4)))
    in ti < length (chd_keys chd4) \<and> chd_keys chd4 ! ti = 2 \<and> chd_values chd4 ! ti = 20)"
proof -
  from C3_exact_key[OF Build_E0_four, of 2] obtain v where
    v: "Get chd4 2 = Some v"
    "v \<noteq> - 1 \<longrightarrow>
       (let h = hasher 2 XOR chd_r chd4 ! 0;
            ri = chd_indices chd4 ! unat (h mod of_nat (length (chd_indices chd4)));
            ti = unat ((h XOR chd_r chd4 ! unat ri) mod of_nat (length (chd_keys chd4)))
        in ti < length (chd_keys chd4) \<and> chd_keys chd4 ! ti = 2 \<and> chd_values chd4 ! ti = v)"
    by blast
  from v(1) have v20: "v = 20" by (simp add: Get_chd4_2)
  have ne: "(20 :: u64) \<noteq> - 1" by simp
  from v(2) v20 ne Build_E0_four Get_chd4_2 show ?thesis by simp
qed

section \<open>The build with no pairs\<close>

lemma sort_contract_single: "sort_contract srt \<Longrightarrow> srt [x] = [x]"
proof -
  assume "sort_contract srt"
  then have "mset (srt [x]) = {#x#}" by (simp add: sort_contract_def)
  then show ?thesis by simp
qed

text \<open>
  Claim C9. With no pairs added, \<open>Build\<close> succeeds and its structure has one salt, one
  bucket entry that is the unassigned sentinel 65535, and no keys; \<open>Get\<close> of any key
  returns the sentinel (all ones) and does not panic, although the key array it would
  reduce by is empty: the unassigned check returns first.
\<close>

theorem C9_empty_build:
  assumes "sort_contract (sort_Sort E)" and "b_keys b = []"
  shows "\<exists>r0. Build E b = Some (Some \<lparr>chd_r = [r0], chd_indices = [- 1], chd_keys = [], chd_values = []\<rparr>, None)
           \<and> (\<forall>key. Get \<lparr>chd_r = [r0], chd_indices = [- 1], chd_keys = [], chd_values = []\<rparr> key = Some (- 1))"
proof -
  let ?b0 = "\<lparr>bucket_index = 0, bucket_keys = [], bucket_values = []\<rparr>"
  let ?hs = "newCHDHasher E 0 1 (b_seed b) (b_seeded b)"
  have pk: "partition_keys E b = Some (Inr (?hs, [?b0]))"
    using assms(2) by (simp add: partition_keys_def bucket_count_def)
  have "Build E b = Some (Some \<lparr>chd_r = h_r ?hs, chd_indices = [- 1], chd_keys = [], chd_values = []\<rparr>, None)"
    using assms(2) by (simp add: Build_def pk bucket_count_def sort_contract_single[OF assms(1)])
  moreover have "Get \<lparr>chd_r = h_r ?hs, chd_indices = [- 1], chd_keys = [], chd_values = []\<rparr> key = Some (- 1)" for key
    by (simp add: Get_def index_def umod_def newCHDHasher_fields)
  ultimately show ?thesis
    by (simp add: newCHDHasher_fields)
qed

theorem C9_empty_build_witness:
  "sort_contract (sort_Sort E0) \<and> b_keys Builder = [] \<and>
   Build E0 Builder = Some (Some \<lparr>chd_r = [42], chd_indices = [- 1], chd_keys = [], chd_values = []\<rparr>, None) \<and>
   Get \<lparr>chd_r = [42], chd_indices = [- 1], chd_keys = [], chd_values = []\<rparr> 5 = Some (- 1)"
proof -
  have s: "sort_contract (sort_Sort E0)" by (simp add: E0_def sort_contract_go_Sort)
  have k: "b_keys Builder = []" by (simp add: Builder_def)
  from C9_empty_build[OF s k] obtain r0 where
    b: "Build E0 Builder = Some (Some \<lparr>chd_r = [r0], chd_indices = [- 1], chd_keys = [], chd_values = []\<rparr>, None)"
    and g: "\<And>key. Get \<lparr>chd_r = [r0], chd_indices = [- 1], chd_keys = [], chd_values = []\<rparr> key = Some (- 1)"
    by blast
  have "chd_r (the (fst (the (Build E0 Builder)))) = [42]"
    by (simp add: Build_def partition_keys_def bucket_count_def newCHDHasher_def hasher_Add_def
        Builder_def E0_def lcg_def go_Sort_def)
  with b have "r0 = 42" by simp
  with s k b g[of 5] show ?thesis by simp
qed

section \<open>The order in which buckets are placed\<close>





section \<open>The codec: little-endian integers\<close>

lemma byte_step:
  "push_bit k (w::'a::len word) = push_bit k (ucast (ucast w :: byte)) OR push_bit (k + 8) (drop_bit 8 w)"
proof (rule bit_word_eqI)
  fix n
  assume "n < LENGTH('a)"
  have e: "\<not> n - k < 8 \<Longrightarrow> 8 + (n - (k + 8)) = n - k"
    by arith
  show "bit (push_bit k w) n =
        bit (push_bit k (ucast (ucast w :: byte)) OR push_bit (k + 8) (drop_bit 8 w)) n"
    using \<open>n < LENGTH('a)\<close> e by (cases "n - k < 8") (auto simp: bit_simps)
qed

lemma Uint64_PutUint64: "Uint64 (PutUint64 v) = v"
  using byte_step[of 0 v] byte_step[of 8 "drop_bit 8 v"] byte_step[of 16 "drop_bit 16 v"]
    byte_step[of 24 "drop_bit 24 v"] byte_step[of 32 "drop_bit 32 v"] byte_step[of 40 "drop_bit 40 v"]
    byte_step[of 48 "drop_bit 48 v"] byte_step[of 56 "drop_bit 56 v"]
  by (simp add: Uint64_def PutUint64_def ac_simps)

lemma Uint32_PutUint32: "Uint32 (PutUint32 v) = v"
  using byte_step[of 0 v] byte_step[of 8 "drop_bit 8 v"] byte_step[of 16 "drop_bit 16 v"]
    byte_step[of 24 "drop_bit 24 v"]
  by (simp add: Uint32_def PutUint32_def ac_simps)

lemma Uint16_PutUint16: "Uint16 (PutUint16 v) = v"
  using byte_step[of 0 v] byte_step[of 8 "drop_bit 8 v"]
  by (simp add: Uint16_def PutUint16_def ac_simps)

section \<open>The codec: the slice reader on a laid-out region\<close>

lemma unat_of_nat_small: "x < 2 ^ LENGTH('a) \<Longrightarrow> unat (of_nat x :: 'a::len word) = x"
  by (simp add: unat_of_nat)

lemma read_layout:
  assumes b: "sr_b b = pre @ xs @ post" and p: "sr_pos b = of_nat (length pre)"
    and l: "length pre + length xs < 2 ^ 64" and sz: "sz = of_nat (length xs)"
  shows "read b sz = Some (xs, b\<lparr>sr_pos := of_nat (length pre + length xs)\<rparr>)"
proof -
  have u1: "unat (of_nat (length pre) :: u64) = length pre"
    using l by (intro unat_of_nat_small) simp
  have u2: "unat (of_nat (length pre) + of_nat (length xs) :: u64) = length pre + length xs"
    using l unat_of_nat_small[of "length pre + length xs", where 'a=64] by simp
  have le: "(of_nat (length pre) :: u64) \<le> of_nat (length pre) + of_nat (length xs)"
    by (simp add: word_le_nat_alt u1 u2)
  show ?thesis
    using le by (simp add: read_def Let_def b p sz u1 u2)
qed

lemma length_concat_PutUint64: "length (concat (map PutUint64 vs)) = 8 * length vs"
  by (induction vs) (simp_all add: PutUint64_def)

lemma length_concat_PutUint16: "length (concat (map PutUint16 vs)) = 2 * length vs"
  by (induction vs) (simp_all add: PutUint16_def)

lemma chunk_PutUint64:
  "j < length vs \<Longrightarrow> take 8 (drop (8 * j) (concat (map PutUint64 vs))) = PutUint64 (vs ! j)"
proof (induction vs arbitrary: j)
  case Nil
  then show ?case by simp
next
  case (Cons v vs)
  have l: "length (PutUint64 v) = 8" by (simp add: PutUint64_def)
  show ?case
  proof (cases j)
    case 0
    then show ?thesis using l by simp
  next
    case (Suc j')
    with Cons.prems have "j' < length vs" by simp
    from Cons.IH[OF this] Suc l show ?thesis by simp
  qed
qed

lemma chunk_PutUint16:
  "j < length vs \<Longrightarrow> take 2 (drop (2 * j) (concat (map PutUint16 vs))) = PutUint16 (vs ! j)"
proof (induction vs arbitrary: j)
  case Nil
  then show ?case by simp
next
  case (Cons v vs)
  have l: "length (PutUint16 v) = 2" by (simp add: PutUint16_def)
  show ?case
  proof (cases j)
    case 0
    then show ?thesis using l by simp
  next
    case (Suc j')
    with Cons.prems have "j' < length vs" by simp
    from Cons.IH[OF this] Suc l show ?thesis by simp
  qed
qed

lemma decode_PutUint64:
  "map (\<lambda>j. if j < length vs
             then Uint64 (take 8 (drop (8 * j) (concat (map PutUint64 vs)))) else 0)
     [0..<length vs] = vs"
  by (rule nth_equalityI) (simp_all add: length_concat_PutUint64 chunk_PutUint64 Uint64_PutUint64)

lemma decode_PutUint16:
  "map (\<lambda>j. if j < length vs
             then Uint16 (take 2 (drop (2 * j) (concat (map PutUint16 vs)))) else 0)
     [0..<length vs] = vs"
  by (rule nth_equalityI) (simp_all add: length_concat_PutUint16 chunk_PutUint16 Uint16_PutUint16)

lemma ReadInt_layout:
  assumes "sr_b b = pre @ PutUint32 v @ post" and "sr_pos b = of_nat (length pre)"
    and "length pre + 4 < 2 ^ 64"
  shows "ReadInt b = Some (ucast v, b\<lparr>sr_pos := of_nat (length pre + 4)\<rparr>)"
proof -
  have l: "length (PutUint32 v) = 4" by (simp add: PutUint32_def)
  have "read b 4 = Some (PutUint32 v, b\<lparr>sr_pos := of_nat (length pre + length (PutUint32 v))\<rparr>)"
    using assms l by (intro read_layout[where post = post]) simp_all
  then show ?thesis by (simp add: ReadInt_def l Uint32_PutUint32)
qed

lemma ReadUint64Array_layout:
  assumes "sr_b b = pre @ concat (map PutUint64 vs) @ post" and "sr_pos b = of_nat (length pre)"
    and "length vs < 2 ^ 32" and "length pre + 8 * length vs < 2 ^ 64"
    and n: "n = of_nat (length vs)"
  shows "ReadUint64Array b n = Some (vs, b\<lparr>sr_pos := of_nat (length pre + 8 * length vs)\<rparr>)"
proof -
  have "read b (n * 8) = Some (concat (map PutUint64 vs),
          b\<lparr>sr_pos := of_nat (length pre + length (concat (map PutUint64 vs)))\<rparr>)"
    using assms by (intro read_layout[where post = post]) (simp_all add: length_concat_PutUint64)
  moreover have "unat n = length vs"
    using assms(3) unat_of_nat_small[of "length vs", where 'a=64] by (simp add: n)
  ultimately show ?thesis
    by (simp add: ReadUint64Array_def decode_PutUint64 length_concat_PutUint64)
qed

lemma ReadUint16Array_layout:
  assumes "sr_b b = pre @ concat (map PutUint16 vs) @ post" and "sr_pos b = of_nat (length pre)"
    and "length vs < 2 ^ 32" and "length pre + 2 * length vs < 2 ^ 64"
    and n: "n = of_nat (length vs)"
  shows "ReadUint16Array b n = Some (vs, b\<lparr>sr_pos := of_nat (length pre + 2 * length vs)\<rparr>)"
proof -
  have "read b (n * 2) = Some (concat (map PutUint16 vs),
          b\<lparr>sr_pos := of_nat (length pre + length (concat (map PutUint16 vs)))\<rparr>)"
    using assms by (intro read_layout[where post = post]) (simp_all add: length_concat_PutUint16)
  moreover have "unat n = length vs"
    using assms(3) unat_of_nat_small[of "length vs", where 'a=64] by (simp add: n)
  ultimately show ?thesis
    by (simp add: ReadUint16Array_def decode_PutUint16 length_concat_PutUint16)
qed

lemma ucast_of_nat_32_64: "L < 2 ^ 32 \<Longrightarrow> (ucast (of_nat L :: u32) :: u64) = of_nat L"
  by (simp add: word_unat_eq_iff unsigned_ucast_eq unat_of_nat take_bit_eq_mod)

lemma layout_bound:
  "a < 2 ^ 32 \<Longrightarrow> b < 2 ^ 32 \<Longrightarrow> c < 2 ^ 32 \<Longrightarrow>
   12 + 8 * a + 2 * b + 16 * c < (2::nat) ^ 64"
  by simp

lemma ReadInt_at:
  assumes "bs = pre @ PutUint32 (of_nat L) @ post" and "L < 2 ^ 32" and "length pre + 4 < 2 ^ 64"
  shows "ReadInt \<lparr>sr_b = bs, sr_pos = of_nat (length pre)\<rparr> =
           Some (of_nat L, \<lparr>sr_b = bs, sr_pos = of_nat (length pre + 4)\<rparr>)"
  using ReadInt_layout[of "\<lparr>sr_b = bs, sr_pos = of_nat (length pre)\<rparr>" pre "of_nat L" post] assms
  by (simp add: ucast_of_nat_32_64 del: of_nat_add)

lemma ReadUint64Array_at:
  assumes "bs = pre @ concat (map PutUint64 vs) @ post" and "length vs < 2 ^ 32"
    and "length pre + 8 * length vs < 2 ^ 64"
  shows "ReadUint64Array \<lparr>sr_b = bs, sr_pos = of_nat (length pre)\<rparr> (of_nat (length vs)) =
           Some (vs, \<lparr>sr_b = bs, sr_pos = of_nat (length pre + 8 * length vs)\<rparr>)"
  using ReadUint64Array_layout[of "\<lparr>sr_b = bs, sr_pos = of_nat (length pre)\<rparr>" pre vs post
      "of_nat (length vs)"] assms
  by (simp del: of_nat_add of_nat_mult)

lemma ReadUint16Array_at:
  assumes "bs = pre @ concat (map PutUint16 vs) @ post" and "length vs < 2 ^ 32"
    and "length pre + 2 * length vs < 2 ^ 64"
  shows "ReadUint16Array \<lparr>sr_b = bs, sr_pos = of_nat (length pre)\<rparr> (of_nat (length vs)) =
           Some (vs, \<lparr>sr_b = bs, sr_pos = of_nat (length pre + 2 * length vs)\<rparr>)"
  using ReadUint16Array_layout[of "\<lparr>sr_b = bs, sr_pos = of_nat (length pre)\<rparr>" pre vs post
      "of_nat (length vs)"] assms
  by (simp del: of_nat_add of_nat_mult)

lemma Mmap_layout:
  assumes lr: "length rs < 2 ^ 32" and li: "length ixs < 2 ^ 32" and lk: "length ks < 2 ^ 32"
    and lv: "length vs = length ks"
  shows "Mmap (PutUint32 (of_nat (length rs)) @ concat (map PutUint64 rs) @
               PutUint32 (of_nat (length ixs)) @ concat (map PutUint16 ixs) @
               PutUint32 (of_nat (length ks)) @ concat (map PutUint64 ks) @
               concat (map PutUint64 vs) @ rest)
         = Some (Some \<lparr>chd_r = rs, chd_indices = ixs, chd_keys = ks, chd_values = vs\<rparr>, None)"
proof -
  define A where "A = PutUint32 (of_nat (length rs))"
  define B where "B = concat (map PutUint64 rs)"
  define C where "C = PutUint32 (of_nat (length ixs))"
  define D where "D = concat (map PutUint16 ixs)"
  define F where "F = PutUint32 (of_nat (length ks))"
  define G where "G = concat (map PutUint64 ks)"
  define H where "H = concat (map PutUint64 vs)"
  define bs where "bs = A @ B @ C @ D @ F @ G @ H @ rest"
  have len: "length A = 4" "length B = 8 * length rs" "length C = 4" "length D = 2 * length ixs"
    "length F = 4" "length G = 8 * length ks" "length H = 8 * length vs"
    by (simp_all add: A_def B_def C_def D_def F_def G_def H_def PutUint32_def
        length_concat_PutUint64 length_concat_PutUint16)
  note tot = layout_bound[OF lr li lk]
  have s1: "ReadInt \<lparr>sr_b = bs, sr_pos = 0\<rparr> =
              Some (of_nat (length rs), \<lparr>sr_b = bs, sr_pos = of_nat (length A)\<rparr>)"
    using ReadInt_at[of bs "[]" "length rs" "B @ C @ D @ F @ G @ H @ rest"] lr
    by (simp add: bs_def A_def[symmetric] len)
  have s2: "ReadUint64Array \<lparr>sr_b = bs, sr_pos = of_nat (length A)\<rparr> (of_nat (length rs)) =
              Some (rs, \<lparr>sr_b = bs, sr_pos = of_nat (length (A @ B))\<rparr>)"
    using ReadUint64Array_at[of bs A rs "C @ D @ F @ G @ H @ rest"] lr tot
    by (simp add: bs_def B_def[symmetric] len del: of_nat_add of_nat_mult)
  have s3: "ReadInt \<lparr>sr_b = bs, sr_pos = of_nat (length (A @ B))\<rparr> =
              Some (of_nat (length ixs), \<lparr>sr_b = bs, sr_pos = of_nat (length (A @ B @ C))\<rparr>)"
    using ReadInt_at[of bs "A @ B" "length ixs" "D @ F @ G @ H @ rest"] li tot
    by (simp add: bs_def C_def[symmetric] len add.assoc del: of_nat_add of_nat_mult)
  have s4: "ReadUint16Array \<lparr>sr_b = bs, sr_pos = of_nat (length (A @ B @ C))\<rparr> (of_nat (length ixs)) =
              Some (ixs, \<lparr>sr_b = bs, sr_pos = of_nat (length (A @ B @ C @ D))\<rparr>)"
    using ReadUint16Array_at[of bs "A @ B @ C" ixs "F @ G @ H @ rest"] li tot
    by (simp add: bs_def D_def[symmetric] len add.assoc del: of_nat_add of_nat_mult)
  have s5: "ReadInt \<lparr>sr_b = bs, sr_pos = of_nat (length (A @ B @ C @ D))\<rparr> =
              Some (of_nat (length ks), \<lparr>sr_b = bs, sr_pos = of_nat (length (A @ B @ C @ D @ F))\<rparr>)"
    using ReadInt_at[of bs "A @ B @ C @ D" "length ks" "G @ H @ rest"] lk tot
    by (simp add: bs_def F_def[symmetric] len add.assoc del: of_nat_add of_nat_mult)
  have s6: "ReadUint64Array \<lparr>sr_b = bs, sr_pos = of_nat (length (A @ B @ C @ D @ F))\<rparr> (of_nat (length ks)) =
              Some (ks, \<lparr>sr_b = bs, sr_pos = of_nat (length (A @ B @ C @ D @ F @ G))\<rparr>)"
    using ReadUint64Array_at[of bs "A @ B @ C @ D @ F" ks "H @ rest"] lk tot
    by (simp add: bs_def G_def[symmetric] len add.assoc del: of_nat_add of_nat_mult)
  have s7: "ReadUint64Array \<lparr>sr_b = bs, sr_pos = of_nat (length (A @ B @ C @ D @ F @ G))\<rparr> (of_nat (length ks)) =
              Some (vs, \<lparr>sr_b = bs, sr_pos = of_nat (length (A @ B @ C @ D @ F @ G @ H))\<rparr>)"
    using ReadUint64Array_at[of bs "A @ B @ C @ D @ F @ G" vs rest] lk tot lv
    by (simp add: bs_def H_def[symmetric] len add.assoc del: of_nat_add of_nat_mult)
  have "Mmap bs = Some (Some \<lparr>chd_r = rs, chd_indices = ixs, chd_keys = ks, chd_values = vs\<rparr>, None)"
    unfolding Mmap_def by (simp only: s1 s2 s3 s4 s5 s6 s7 Option.bind.simps prod.case)
  then show ?thesis
    by (simp only: bs_def A_def B_def C_def D_def F_def G_def H_def)
qed

section \<open>The codec: what Write emits and Mmap decodes\<close>

lemma upt_0_4: "[0..<4] = [0, 1, 2, 3]"
  by (simp add: upt_rec)
lemma upt_0_2: "[0..<2] = [0, 1]"
  by (simp add: upt_rec)

lemma byte_of_drop_bit_gen:
  "(ucast (drop_bit (8 * i) (v::'a::len word)) :: byte) = of_nat (unat v div 256 ^ i mod 256)"
  by (simp only: word_unat_eq_iff unsigned_ucast_eq unat_drop_bit_eq unat_of_nat)
    (simp add: take_bit_eq_mod drop_bit_eq_div power_mult)

lemma PutUint64_le_bytes: "PutUint64 v = le_bytes 8 (unat v)"
  using byte_of_drop_bit_gen[of 0 v] byte_of_drop_bit_gen[of 1 v] byte_of_drop_bit_gen[of 2 v]
    byte_of_drop_bit_gen[of 3 v] byte_of_drop_bit_gen[of 4 v] byte_of_drop_bit_gen[of 5 v]
    byte_of_drop_bit_gen[of 6 v] byte_of_drop_bit_gen[of 7 v]
  by (simp add: PutUint64_def le_bytes_def upt_0_8)

lemma PutUint32_le_bytes: "PutUint32 v = le_bytes 4 (unat v)"
  using byte_of_drop_bit_gen[of 0 v] byte_of_drop_bit_gen[of 1 v] byte_of_drop_bit_gen[of 2 v]
    byte_of_drop_bit_gen[of 3 v]
  by (simp add: PutUint32_def le_bytes_def upt_0_4)

lemma PutUint16_le_bytes: "PutUint16 v = le_bytes 2 (unat v)"
  using byte_of_drop_bit_gen[of 0 v] byte_of_drop_bit_gen[of 1 v]
  by (simp add: PutUint16_def le_bytes_def upt_0_2)

lemma Write_buffer:
  "Write buffer_Write buf c =
     (buf @ PutUint32 (of_nat (length (chd_r c))) @ concat (map PutUint64 (chd_r c)) @
        PutUint32 (of_nat (length (chd_indices c))) @ concat (map PutUint16 (chd_indices c)) @
        PutUint32 (of_nat (length (chd_keys c))) @ concat (map PutUint64 (chd_keys c)) @
        concat (map PutUint64 (chd_values c)), None)"
  by (simp add: Write_def buffer_Write_def)

lemma Mmap_Write:
  assumes "length (chd_r c) < 2 ^ 32" "length (chd_indices c) < 2 ^ 32" "length (chd_keys c) < 2 ^ 32"
    "length (chd_values c) = length (chd_keys c)"
  shows "Mmap (fst (Write buffer_Write [] c) @ rest) = Some (Some c, None)"
  using Mmap_layout[OF assms, of rest] by (simp add: Write_buffer)

text \<open>
  Claim C6. Written to a buffer, a structure is exactly: the number of salts as four
  little-endian bytes, the salts as eight little-endian bytes each, the number of
  bucket entries as four bytes, the entries as two bytes each, the number of keys as four
  bytes, the keys and then the values as eight bytes each; nothing precedes the first
  count, so there is no magic number and no version field. A count field holds the
  length as \<^verbatim>\<open>uint32\<close>, that is modulo \<open>2 ^ 32\<close>. When the three lengths fit their count
  fields and there are as many values as keys, \<open>Mmap\<close> reads the fields back in the same
  order and returns the structure that was written, whatever bytes follow.
\<close>

theorem C6_layout:
  "Write buffer_Write buf c =
     (buf @ le_bytes 4 (length (chd_r c) mod 2 ^ 32) @
        concat (map (\<lambda>x. le_bytes 8 (unat x)) (chd_r c)) @
        le_bytes 4 (length (chd_indices c) mod 2 ^ 32) @
        concat (map (\<lambda>x. le_bytes 2 (unat x)) (chd_indices c)) @
        le_bytes 4 (length (chd_keys c) mod 2 ^ 32) @
        concat (map (\<lambda>x. le_bytes 8 (unat x)) (chd_keys c)) @
        concat (map (\<lambda>x. le_bytes 8 (unat x)) (chd_values c)), None)
   \<and> (length (chd_r c) < 2 ^ 32 \<and> length (chd_indices c) < 2 ^ 32 \<and>
        length (chd_keys c) < 2 ^ 32 \<and> length (chd_values c) = length (chd_keys c)
      \<longrightarrow> Mmap (fst (Write buffer_Write [] c) @ rest) = Some (Some c, None))"
proof -
  have p: "PutUint64 = (\<lambda>x. le_bytes 8 (unat x))" "PutUint16 = (\<lambda>x. le_bytes 2 (unat x))"
    by (rule ext, simp add: PutUint64_le_bytes) (rule ext, simp add: PutUint16_le_bytes)
  have q: "PutUint32 (of_nat L) = le_bytes 4 (L mod 2 ^ 32)" for L
    by (simp add: PutUint32_le_bytes unat_of_nat)
  show ?thesis
    using Mmap_Write[of c rest] by (simp add: Write_buffer p q)
qed

theorem C6_layout_witness:
  "fst (Write buffer_Write [] chd4) =
     [1,0,0,0, 42,0,0,0,0,0,0,0, 2,0,0,0, 0,0, 0,0, 4,0,0,0,
      1,0,0,0,0,0,0,0, 4,0,0,0,0,0,0,0, 3,0,0,0,0,0,0,0, 2,0,0,0,0,0,0,0,
      10,0,0,0,0,0,0,0, 40,0,0,0,0,0,0,0, 30,0,0,0,0,0,0,0, 20,0,0,0,0,0,0,0]
   \<and> length (chd_r chd4) < 2 ^ 32 \<and> length (chd_indices chd4) < 2 ^ 32
   \<and> length (chd_keys chd4) < 2 ^ 32 \<and> length (chd_values chd4) = length (chd_keys chd4)
   \<and> Mmap (fst (Write buffer_Write [] chd4) @ []) = Some (Some chd4, None)"
proof -
  have l: "length (chd_r chd4) < 2 ^ 32 \<and> length (chd_indices chd4) < 2 ^ 32 \<and>
        length (chd_keys chd4) < 2 ^ 32 \<and> length (chd_values chd4) = length (chd_keys chd4)"
    by (simp add: chd4_def)
  have w: "fst (Write buffer_Write [] chd4) =
     [1,0,0,0, 42,0,0,0,0,0,0,0, 2,0,0,0, 0,0, 0,0, 4,0,0,0,
      1,0,0,0,0,0,0,0, 4,0,0,0,0,0,0,0, 3,0,0,0,0,0,0,0, 2,0,0,0,0,0,0,0,
      10,0,0,0,0,0,0,0, 40,0,0,0,0,0,0,0, 30,0,0,0,0,0,0,0, 20,0,0,0,0,0,0,0]"
    by (simp add: Write_def buffer_Write_def chd4_def PutUint32_def PutUint64_def PutUint16_def)
  from C6_layout[of "[]" chd4 "[]"] l w show ?thesis by blast
qed

end
